theory Spec2Isabelle
  imports Main
begin

section \<open>GitHub Actions indicators: data model\<close>

text \<open>
  The development follows \<^verbatim>\<open>source/features/github-actions-indicators.tsx\<close>.
  JavaScript strings are modelled as \<^typ>\<open>string\<close>: one \<^typ>\<open>char\<close> per code unit, which
  covers the code units below 256. An object used as a dictionary
  (\<^verbatim>\<open>Record<string, T>\<close>) is modelled by its own properties, a map from keys to values;
  a read \<^verbatim>\<open>obj[k]\<close> of a key that is not an own property goes on to
  \<^verbatim>\<open>Object.prototype\<close> (function \<open>js_get\<close> below).
\<close>

record workflow =
  name :: string
  isEnabled :: bool

record workflow_details = workflow +
  schedule :: "string option"
  manuallyDispatchable :: bool

text \<open>One element of \<^verbatim>\<open>response.workflows\<close> of the REST call \<^verbatim>\<open>actions/workflows\<close>.\<close>

record api_workflow =
  path :: string
  state :: string

text \<open>
  One element of \<^verbatim>\<open>workflowFiles.entries\<close> of the GraphQL query. The query asks for
  \<^verbatim>\<open>text\<close> only \<^verbatim>\<open>... on Blob\<close>, so the object of an entry that is not a file has no
  \<^verbatim>\<open>text\<close> property. Every entry is taken to have an object.
\<close>

datatype git_object = Blob string | NotBlob

record tree_entry =
  entry_name :: string
  object :: git_object

datatype error = TransportError | TypeError

section \<open>String operations of the runtime\<close>

text \<open>\<^verbatim>\<open>s.split(sep)\<close> for a one-character separator: never the empty array.\<close>

fun split_from :: "char \<Rightarrow> string \<Rightarrow> string \<Rightarrow> string list" where
  "split_from sep cur [] = [cur]"
| "split_from sep cur (c # cs) =
     (if c = sep then cur # split_from sep [] cs else split_from sep (cur @ [c]) cs)"

definition split :: "string \<Rightarrow> char \<Rightarrow> string list" where
  "split s sep = split_from sep [] s"

text \<open>\<^verbatim>\<open>xs.pop()\<close>: the last element, \<^verbatim>\<open>undefined\<close> on the empty array.\<close>

fun pop :: "'a list \<Rightarrow> 'a option" where
  "pop [] = None"
| "pop [x] = Some x"
| "pop (x # y # ys) = pop (y # ys)"

text \<open>
  \<^verbatim>\<open>s.split('/').pop()!\<close>. The array is never empty, so the branch for
  \<^verbatim>\<open>undefined\<close> is not taken (lemmas \<open>split_from_not_Nil\<close> and \<open>pop_last\<close> below); it is
  written as the empty
  string only to keep the function total.
\<close>

definition last_segment :: "string \<Rightarrow> string" where
  "last_segment s = (case pop (split s (CHR ''/'')) of Some seg \<Rightarrow> seg | None \<Rightarrow> [])"

fun starts_with :: "string \<Rightarrow> string \<Rightarrow> bool" where
  "starts_with [] s = True"
| "starts_with (p # ps) [] = False"
| "starts_with (p # ps) (c # cs) = (p = c \<and> starts_with ps cs)"

text \<open>\<^verbatim>\<open>s.includes(sub)\<close>: \<open>sub\<close> occurs at some index of \<open>s\<close>.\<close>

fun js_includes :: "string \<Rightarrow> string \<Rightarrow> bool" where
  "js_includes [] sub = starts_with sub []"
| "js_includes (c # cs) sub = (starts_with sub (c # cs) \<or> js_includes cs sub)"

section \<open>The regular expression\<close>

text \<open>
  The constructs that \<^verbatim>\<open>/schedule[:\s-]+cron[:\s'"]+([^'"\n]+)/m\<close> is made of: a literal,
  a character class under a greedy \<^verbatim>\<open>+\<close>, and such a class inside a capturing group.
  The flag \<^verbatim>\<open>m\<close> only changes \<^verbatim>\<open>^\<close> and \<^verbatim>\<open>$\<close>, which do not occur; there is no flag
  \<^verbatim>\<open>i\<close>.
\<close>

datatype atom = Lit string | Plus "char \<Rightarrow> bool" | Group_Plus "char \<Rightarrow> bool"

text \<open>The backtracking of a greedy quantifier: the longest repetition first, then shorter
  ones, down to one character.\<close>

fun first_down :: "(nat \<Rightarrow> 'a option) \<Rightarrow> nat \<Rightarrow> 'a option" where
  "first_down f 0 = None"
| "first_down f (Suc k) =
     (case f (Suc k) of Some r \<Rightarrow> Some r | None \<Rightarrow> first_down f k)"

text \<open>A match attempt at the start of \<open>s\<close>; the result is the list of captured groups.\<close>

fun match_here :: "atom list \<Rightarrow> string \<Rightarrow> string list option" where
  "match_here [] s = Some []"
| "match_here (Lit l # r) s =
     (if starts_with l s then match_here r (drop (length l) s) else None)"
| "match_here (Plus c # r) s =
     first_down (\<lambda>k. match_here r (drop k s)) (length (takeWhile c s))"
| "match_here (Group_Plus c # r) s =
     first_down (\<lambda>k. map_option (Cons (take k s)) (match_here r (drop k s)))
       (length (takeWhile c s))"

text \<open>\<^verbatim>\<open>re.exec(s)\<close> without the flags \<^verbatim>\<open>g\<close> and \<^verbatim>\<open>y\<close>: the attempt at index 0, then
  at index 1, and so on, up to the end of the string.\<close>

fun regex_exec :: "atom list \<Rightarrow> string \<Rightarrow> string list option" where
  "regex_exec re [] = match_here re []"
| "regex_exec re (c # cs) =
     (case match_here re (c # cs) of Some groups \<Rightarrow> Some groups | None \<Rightarrow> regex_exec re cs)"

definition quote :: char where "quote = CHR 0x27"
definition dquote :: char where "dquote = CHR 0x22"
definition newline :: char where "newline = CHR 0x0A"

text \<open>The class \<^verbatim>\<open>\s\<close>, on the code units below 256: tab, line feed, vertical tab, form
  feed, carriage return, space and no-break space.\<close>

definition is_space :: "char \<Rightarrow> bool" where
  "is_space c = (c = CHR 0x09 \<or> c = CHR 0x0A \<or> c = CHR 0x0B \<or> c = CHR 0x0C \<or> c = CHR 0x0D
     \<or> c = CHR 0x20 \<or> c = CHR 0xA0)"

definition after_schedule :: "char \<Rightarrow> bool" where
  "after_schedule c = (c = CHR '':'' \<or> is_space c \<or> c = CHR ''-'')"

definition after_cron :: "char \<Rightarrow> bool" where
  "after_cron c = (c = CHR '':'' \<or> is_space c \<or> c = quote \<or> c = dquote)"

definition cron_char :: "char \<Rightarrow> bool" where
  "cron_char c = (c \<noteq> quote \<and> c \<noteq> dquote \<and> c \<noteq> newline)"

definition cron_regex :: "atom list" where
  "cron_regex = [Lit ''schedule'', Plus after_schedule, Lit ''cron'', Plus after_cron,
     Group_Plus cron_char]"

text \<open>\<^verbatim>\<open>cron?.[1]\<close> for \<^verbatim>\<open>cron = cron_regex.exec(workflowYaml)\<close>.\<close>

definition extract_schedule :: "string \<Rightarrow> string option" where
  "extract_schedule workflowYaml =
     (case regex_exec cron_regex workflowYaml of
        None \<Rightarrow> None
      | Some groups \<Rightarrow> (case groups of [] \<Rightarrow> None | g # _ \<Rightarrow> Some g))"

section \<open>The two fetchers\<close>

definition getWorkflows :: "api_workflow list \<Rightarrow> workflow list" where
  "getWorkflows workflows =
     map (\<lambda>w. \<lparr>name = last_segment (path w), isEnabled = (state w = ''active'')\<rparr>) workflows"

fun object_text :: "git_object \<Rightarrow> string option" where
  "object_text (Blob t) = Some t"
| "object_text NotBlob = None"

text \<open>
  The loop \<^verbatim>\<open>result[workflow.name] = workflow.object.text\<close>, as the texts that the
  result holds: \<open>None\<close> under a key stands for no text, whether the key is absent or bound
  to \<^verbatim>\<open>undefined\<close>. An assignment to the key \<^verbatim>\<open>__proto__\<close> reaches the setter of
  \<^verbatim>\<open>Object.prototype\<close>, which ignores a string and \<^verbatim>\<open>undefined\<close>, so it changes nothing.
\<close>

fun files_loop :: "tree_entry list \<Rightarrow> (string \<rightharpoonup> string) \<Rightarrow> (string \<rightharpoonup> string)" where
  "files_loop [] result = result"
| "files_loop (w # ws) result =
     files_loop ws
       (if entry_name w = ''__proto__'' then result
        else result(entry_name w := object_text (object w)))"

text \<open>The argument is \<^verbatim>\<open>workflowFiles\<close>: \<open>None\<close> when the repository has no
  \<^verbatim>\<open>.github/workflows\<close> tree, else its entries.\<close>

definition getFilesInWorkflowPath :: "tree_entry list option \<Rightarrow> (string \<rightharpoonup> string)" where
  "getFilesInWorkflowPath workflowFiles =
     files_loop (case workflowFiles of None \<Rightarrow> [] | Some entries \<Rightarrow> entries) Map.empty"

section \<open>Reading a property\<close>

text \<open>
  The outcome of \<^verbatim>\<open>obj[k]\<close> for an object that was created as \<^verbatim>\<open>{}\<close> and filled by
  assignments: \<^verbatim>\<open>undefined\<close>, the value of an own property, or a member of
  \<^verbatim>\<open>Object.prototype\<close> (a function, and for \<^verbatim>\<open>__proto__\<close> the prototype itself).
\<close>

datatype 'a property = Undefined | Value 'a | Inherited

definition object_prototype_names :: "string list" where
  "object_prototype_names =
     [''constructor'', ''__defineGetter__'', ''__defineSetter__'', ''hasOwnProperty'',
      ''__lookupGetter__'', ''__lookupSetter__'', ''isPrototypeOf'', ''propertyIsEnumerable'',
      ''toString'', ''valueOf'', ''__proto__'', ''toLocaleString'']"

text \<open>The argument \<open>obj\<close> holds the own properties. No assignment makes \<^verbatim>\<open>__proto__\<close> an
  own property, so that key is always read from the prototype.\<close>

definition js_get :: "(string \<rightharpoonup> 'a) \<Rightarrow> string \<Rightarrow> 'a property" where
  "js_get obj k =
     (if k = ''__proto__'' then Inherited
      else
        (case obj k of
           Some v \<Rightarrow> Value v
         | None \<Rightarrow> if k \<in> set object_prototype_names then Inherited else Undefined))"

text \<open>The keys that the loop of \<^verbatim>\<open>getFilesInWorkflowPath\<close> makes own properties of
  \<^verbatim>\<open>result\<close>: the name of every entry, but for \<^verbatim>\<open>__proto__\<close>.\<close>

definition own_names :: "tree_entry list option \<Rightarrow> string list" where
  "own_names workflowFiles =
     filter (\<lambda>k. k \<noteq> ''__proto__'')
       (map entry_name (case workflowFiles of None \<Rightarrow> [] | Some entries \<Rightarrow> entries))"

text \<open>
  The own properties of the object that \<^verbatim>\<open>getFilesInWorkflowPath\<close> returns. The value of
  a property is a text or \<^verbatim>\<open>undefined\<close> (\<open>Some None\<close>, for an entry that is not a file):
  such a key has no text, and it hides the member of \<^verbatim>\<open>Object.prototype\<close> of the same
  name.
\<close>

definition workflowFiles_object :: "tree_entry list option \<Rightarrow> (string \<rightharpoonup> string option)" where
  "workflowFiles_object workflowFiles =
     (\<lambda>k. if k \<in> set (own_names workflowFiles)
          then Some (getFilesInWorkflowPath workflowFiles k) else None)"

section \<open>The aggregation\<close>

text \<open>
  The loop over \<^verbatim>\<open>workflows\<close>. \<^verbatim>\<open>workflowFiles[workflow.name]\<close> is a read through the
  prototype. When it gives a member of \<^verbatim>\<open>Object.prototype\<close>, the test
  \<^verbatim>\<open>workflowYaml === undefined\<close> fails, \<^verbatim>\<open>exec\<close> runs on the member's string form,
  and \<^verbatim>\<open>workflowYaml.includes\<close> is not a function: the call throws a \<^verbatim>\<open>TypeError\<close>
  before anything is stored.
\<close>

fun details_loop ::
  "workflow list \<Rightarrow> (string \<rightharpoonup> string option) \<Rightarrow> (string \<rightharpoonup> workflow_details)
     \<Rightarrow> error + (string \<rightharpoonup> workflow_details)" where
  "details_loop [] workflowFiles details = Inr details"
| "details_loop (w # ws) workflowFiles details =
     (case js_get workflowFiles (name w) of
        Undefined \<Rightarrow> details_loop ws workflowFiles details
      | Value None \<Rightarrow> details_loop ws workflowFiles details
      | Value (Some workflowYaml) \<Rightarrow>
          details_loop ws workflowFiles
            (details(name w \<mapsto>
               \<lparr>name = name w, isEnabled = isEnabled w,
                schedule = extract_schedule workflowYaml,
                manuallyDispatchable = js_includes workflowYaml ''workflow_dispatch:''\<rparr>))
      | Inherited \<Rightarrow> Inl TypeError)"

definition aggregate ::
  "workflow list \<Rightarrow> (string \<rightharpoonup> string option) \<Rightarrow> error + (string \<rightharpoonup> workflow_details)" where
  "aggregate workflows workflowFiles = details_loop workflows workflowFiles Map.empty"

text \<open>
  The function that \<^verbatim>\<open>cache.function\<close> wraps, on the outcomes of the two requests.
  \<^verbatim>\<open>Promise.all\<close> rejects with the rejection that comes first; \<open>v3_first\<close> tells whether
  the request for the workflows settles before the request for the files.
\<close>

definition getWorkflowsDetails ::
  "bool \<Rightarrow> error + api_workflow list \<Rightarrow> error + tree_entry list option
     \<Rightarrow> error + (string \<rightharpoonup> workflow_details)" where
  "getWorkflowsDetails v3_first v3 v4 =
     (case v3 of
        Inl e3 \<Rightarrow>
          (case v4 of
             Inl e4 \<Rightarrow> Inl (if v3_first then e3 else e4)
           | Inr workflowFiles \<Rightarrow> Inl e3)
      | Inr workflows \<Rightarrow>
          (case v4 of
             Inl e4 \<Rightarrow> Inl e4
           | Inr workflowFiles \<Rightarrow>
               aggregate (getWorkflows workflows) (workflowFiles_object workflowFiles)))"

section \<open>The indicators of one row\<close>

datatype icon = StopIcon | PlayIcon

text \<open>A \<^verbatim>\<open>Date\<close>, as milliseconds since the epoch.\<close>

type_synonym date = int

text \<open>
  What \<^verbatim>\<open>addIndicators\<close> reads and writes of the row \<^verbatim>\<open>workflowListItem\<close>:
  \<^item> \<open>href\<close>, the link of the row;
  \<^item> \<open>native_stop\<close>, whether the page itself put an element \<^verbatim>\<open>.octicon-stop\<close> into the row;
  \<^item> \<open>aria_label\<close>, the attribute \<^verbatim>\<open>aria-label\<close> (\<open>None\<close> when it is not set);
  \<^item> \<open>tooltipped\<close>, whether the classes \<^verbatim>\<open>tooltipped tooltipped-s\<close> are set;
  \<^item> \<open>trailers\<close>, the icons of each appended \<^verbatim>\<open>ActionListItem-visual--trailing\<close> element,
    the newest element first;
  \<^item> \<open>item_label\<close>, the \<^verbatim>\<open>relative-time\<close> elements appended to the element
    \<^verbatim>\<open>.ActionList-item-label\<close> (\<open>None\<close> when the row has no such element);
  \<^item> \<open>timers\<close>, the dates whose \<^verbatim>\<open>Next run\<close> tooltip \<^verbatim>\<open>setTimeout\<close> has scheduled.
\<close>

record list_item =
  href :: string
  native_stop :: bool
  aria_label :: "string option"
  tooltipped :: bool
  trailers :: "icon list list"
  item_label :: "date list option"
  timers :: "date list"

text \<open>The truth value of a string that may be \<^verbatim>\<open>null\<close> or \<^verbatim>\<open>undefined\<close>.\<close>

fun truthy :: "string option \<Rightarrow> bool" where
  "truthy None = False"
| "truthy (Some s) = (s \<noteq> [])"

definition addTooltip :: "list_item \<Rightarrow> string \<Rightarrow> list_item" where
  "addTooltip element tooltip =
     (case aria_label element of
        Some existingTooltip \<Rightarrow>
          (if truthy (Some existingTooltip)
           then element\<lparr>aria_label := Some (existingTooltip @ ''.'' @ [newline] @ tooltip)\<rparr>
           else element\<lparr>tooltipped := True, aria_label := Some tooltip\<rparr>)
      | None \<Rightarrow> element\<lparr>tooltipped := True, aria_label := Some tooltip\<rparr>)"

text \<open>\<^verbatim>\<open>select.exists('.octicon-stop', workflowListItem)\<close>: the page's own icon, or a
  \<^verbatim>\<open>StopIcon\<close> of a trailer.\<close>

definition exists_octicon_stop :: "list_item \<Rightarrow> bool" where
  "exists_octicon_stop item = (native_stop item \<or> StopIcon \<in> set (concat (trailers item)))"

text \<open>\<^verbatim>\<open>svgTrailer.append(icon)\<close>, for the trailer appended last.\<close>

definition svgTrailer_append :: "icon \<Rightarrow> list_item \<Rightarrow> list_item" where
  "svgTrailer_append i item =
     item\<lparr>trailers := (case trailers item of [] \<Rightarrow> [] | t # ts \<Rightarrow> (t @ [i]) # ts)\<rparr>"

text \<open>
  \<^verbatim>\<open>addIndicators\<close>. The parameter \<open>nextDate\<close> is \<^verbatim>\<open>parseCron.nextDate\<close> of the package
  \<^verbatim>\<open>@cheap-glitch/mi-cron\<close> at the time of the call: it returns a date or
  \<^verbatim>\<open>undefined\<close> (\<open>Inr None\<close>), or it throws, and no \<^verbatim>\<open>try\<close> stands around the call.
  \<open>workflowsDetails\<close> is the outcome of \<^verbatim>\<open>await getWorkflowsDetails()\<close>.
  \<^verbatim>\<open>workflows[workflowName]\<close> is a read through the prototype: a member of
  \<^verbatim>\<open>Object.prototype\<close> is not falsy, and its properties \<^verbatim>\<open>isEnabled\<close>,
  \<^verbatim>\<open>manuallyDispatchable\<close> and \<^verbatim>\<open>schedule\<close> are \<^verbatim>\<open>undefined\<close>.
\<close>

definition addIndicators ::
  "(string \<Rightarrow> error + date option) \<Rightarrow> error + (string \<rightharpoonup> workflow_details) \<Rightarrow> list_item
     \<Rightarrow> error + list_item" where
  "addIndicators nextDate workflowsDetails workflowListItem =
     (if exists_octicon_stop workflowListItem then Inr workflowListItem
      else
        (case workflowsDetails of
           Inl e \<Rightarrow> Inl e
         | Inr workflows \<Rightarrow>
             (case js_get workflows (last_segment (href workflowListItem)) of
                Undefined \<Rightarrow> Inr workflowListItem
              | Inherited \<Rightarrow>
                  Inr (addTooltip
                         (svgTrailer_append StopIcon
                            (workflowListItem\<lparr>trailers := [] # trailers workflowListItem\<rparr>))
                         ''This workflow is not enabled'')
              | Value workflow \<Rightarrow>
                  (let item1 = workflowListItem\<lparr>trailers := [] # trailers workflowListItem\<rparr>;
                       item2 = (if \<not> isEnabled workflow
                                then addTooltip (svgTrailer_append StopIcon item1)
                                       ''This workflow is not enabled''
                                else item1);
                       item3 = (if manuallyDispatchable workflow
                                then addTooltip (svgTrailer_append PlayIcon item2)
                                       ''This workflow can be triggered manually''
                                else item2)
                   in (case schedule workflow of
                         None \<Rightarrow> Inr item3
                       | Some cron \<Rightarrow>
                           (if \<not> truthy (Some cron) then Inr item3
                            else
                              (case nextDate cron of
                                 Inl e \<Rightarrow> Inl e
                               | Inr None \<Rightarrow> Inr item3
                               | Inr (Some nextTime) \<Rightarrow>
                                   (case item_label item3 of
                                      None \<Rightarrow> Inl TypeError
                                    | Some shown \<Rightarrow>
                                        Inr (item3\<lparr>item_label := Some (shown @ [nextTime]),
                                               timers := timers item3 @ [nextTime]\<rparr>)))))))))"

section \<open>What a match is\<close>

text \<open>
  The reading of the regular expression as a decomposition of the text, against which the
  backtracking search is compared: \<open>pre\<close> is what precedes the match, \<open>sep\<close> the
  characters between \<^verbatim>\<open>cron\<close> and the captured group, \<open>cap\<close> the group, and \<open>rest\<close>
  what follows it.
\<close>

definition cron_match :: "string \<Rightarrow> string \<Rightarrow> string \<Rightarrow> string \<Rightarrow> string \<Rightarrow> bool" where
  "cron_match text pre sep cap rest =
     (\<exists>s1. text = pre @ ''schedule'' @ s1 @ ''cron'' @ sep @ cap @ rest
        \<and> s1 \<noteq> [] \<and> (\<forall>x\<in>set s1. after_schedule x)
        \<and> sep \<noteq> [] \<and> (\<forall>x\<in>set sep. after_cron x)
        \<and> cap \<noteq> [] \<and> (\<forall>x\<in>set cap. cron_char x))"

section \<open>Strings\<close>

lemma starts_with_iff: "starts_with p s \<longleftrightarrow> (\<exists>r. s = p @ r)"
  by (induction p s rule: starts_with.induct) auto

lemma js_includes_iff: "js_includes s sub \<longleftrightarrow> (\<exists>pre post. s = pre @ sub @ post)"
proof (induction s)
  case Nil
  show ?case by (cases sub) auto
next
  case (Cons c cs)
  show ?case
  proof
    assume "js_includes (c # cs) sub"
    then consider "starts_with sub (c # cs)" | "js_includes cs sub" by auto
    then show "\<exists>pre post. c # cs = pre @ sub @ post"
    proof cases
      case 1
      then obtain r where "c # cs = sub @ r" by (auto simp: starts_with_iff)
      then have "c # cs = [] @ sub @ r" by simp
      then show ?thesis by blast
    next
      case 2
      with Cons obtain pre post where "cs = pre @ sub @ post" by blast
      then have "c # cs = (c # pre) @ sub @ post" by simp
      then show ?thesis by blast
    qed
  next
    assume "\<exists>pre post. c # cs = pre @ sub @ post"
    then obtain pre post where e: "c # cs = pre @ sub @ post" by blast
    show "js_includes (c # cs) sub"
    proof (cases pre)
      case Nil
      with e have "starts_with sub (c # cs)" by (simp add: starts_with_iff)
      then show ?thesis by simp
    next
      case (Cons a pre')
      with e have "cs = pre' @ sub @ post" by simp
      with Cons.IH have "js_includes cs sub" by blast
      then show ?thesis by simp
    qed
  qed
qed

section \<open>The join\<close>

lemma js_get_proto [simp]: "js_get obj ''__proto__'' = Inherited"
  by (simp add: js_get_def)

lemma js_get_empty_key:
  "js_get obj [] = (case obj [] of Some v \<Rightarrow> Value v | None \<Rightarrow> Undefined)"
  by (simp add: js_get_def object_prototype_names_def)

lemma js_get_ValueD: "js_get obj k = Value v \<Longrightarrow> obj k = Some v \<and> k \<noteq> ''__proto__''"
  by (auto simp: js_get_def split: if_splits option.splits)

text \<open>The loop throws exactly when some workflow is named like a member of
  \<^verbatim>\<open>Object.prototype\<close> that no own key of the files hides.\<close>

lemma details_loop_Inl:
  "\<exists>w\<in>set ws. js_get files (name w) = Inherited \<Longrightarrow> details_loop ws files acc = Inl TypeError"
proof (induction ws arbitrary: acc)
  case Nil
  then show ?case by simp
next
  case (Cons w ws)
  show ?case
  proof (cases "js_get files (name w) = Inherited")
    case True
    then show ?thesis by simp
  next
    case False
    with Cons.prems have "\<exists>w\<in>set ws. js_get files (name w) = Inherited" by auto
    then have "details_loop ws files acc' = Inl TypeError" for acc' by (rule Cons.IH)
    then show ?thesis by (simp split: property.splits option.splits)
  qed
qed

lemma details_loop_Inr:
  "\<forall>w\<in>set ws. js_get files (name w) \<noteq> Inherited \<Longrightarrow> \<exists>details. details_loop ws files acc = Inr details"
proof (induction ws arbitrary: acc)
  case Nil
  show ?case by simp
next
  case (Cons w ws)
  from Cons.prems have "\<forall>w\<in>set ws. js_get files (name w) \<noteq> Inherited" by simp
  then have "\<exists>details. details_loop ws files acc' = Inr details" for acc' by (rule Cons.IH)
  with Cons.prems show ?case by (simp split: property.splits option.splits)
qed

text \<open>What the loop leaves under a key: the record of the last workflow of that name, when
  the name has a text.\<close>

lemma details_loop_lookup:
  "details_loop ws files acc = Inr details \<Longrightarrow>
     details n =
       (case js_get files n of
          Value (Some y) \<Rightarrow>
            (if filter (\<lambda>w. name w = n) ws = [] then acc n
             else Some
               \<lparr>name = n, isEnabled = isEnabled (last (filter (\<lambda>w. name w = n) ws)),
                schedule = extract_schedule y,
                manuallyDispatchable = js_includes y ''workflow_dispatch:''\<rparr>)
        | _ \<Rightarrow> acc n)"
proof (induction ws arbitrary: acc)
  case Nil
  then show ?case by (simp split: property.splits option.splits)
next
  case (Cons w ws)
  show ?case
  proof (cases "js_get files (name w)")
    case Undefined
    with Cons.prems have "details_loop ws files acc = Inr details" by simp
    from Cons.IH [OF this] Undefined show ?thesis
      by (cases "name w = n") (simp_all split: property.splits option.splits)
  next
    case Inherited
    with Cons.prems show ?thesis by simp
  next
    case (Value v)
    show ?thesis
    proof (cases v)
      case None
      with Value Cons.prems have "details_loop ws files acc = Inr details" by simp
      from Cons.IH [OF this] Value None show ?thesis
        by (cases "name w = n") (simp_all split: property.splits option.splits)
    next
      case (Some y)
      let ?acc = "acc(name w \<mapsto> \<lparr>name = name w, isEnabled = isEnabled w,
                schedule = extract_schedule y,
                manuallyDispatchable = js_includes y ''workflow_dispatch:''\<rparr>)"
      from Value Some Cons.prems have "details_loop ws files ?acc = Inr details" by simp
      from Cons.IH [OF this] Value Some show ?thesis
        by (cases "name w = n") (simp_all split: property.splits option.splits)
    qed
  qed
qed

lemma aggregate_SomeD:
  assumes "aggregate S D = Inr details" and "details n = Some r"
  obtains y where "js_get D n = Value (Some y)" and "filter (\<lambda>w. name w = n) S \<noteq> []"
    and "r = \<lparr>name = n, isEnabled = isEnabled (last (filter (\<lambda>w. name w = n) S)),
                schedule = extract_schedule y,
                manuallyDispatchable = js_includes y ''workflow_dispatch:''\<rparr>"
  using details_loop_lookup [OF assms(1) [unfolded aggregate_def], of n] assms(2)
  by (auto split: property.splits option.splits if_splits)

text \<open>Without such a workflow the loop returns, and the keys of the result are the names
  that occur among the workflows and have a text.\<close>

lemma aggregate_keys_own:
  assumes "\<forall>w\<in>set S. js_get D (name w) \<noteq> Inherited"
  shows "\<exists>details. aggregate S D = Inr details
     \<and> dom details = {n \<in> name ` set S. \<exists>y. js_get D n = Value (Some y)}"
proof -
  from details_loop_Inr [OF assms] obtain details where d: "aggregate S D = Inr details"
    unfolding aggregate_def by blast
  have "(details n \<noteq> None) = (n \<in> name ` set S \<and> (\<exists>y. js_get D n = Value (Some y)))" for n
    using details_loop_lookup [OF d [unfolded aggregate_def], of n]
    by (auto simp: filter_empty_conv split: property.splits option.splits if_splits)
  then have "dom details = {n \<in> name ` set S. \<exists>y. js_get D n = Value (Some y)}"
    by (auto simp: dom_def)
  with d show ?thesis by blast
qed

text \<open>
  C1. The claim that the aggregation returns, for every list of summaries and every
  mapping of definitions, a mapping whose keys are the names present in both, fails on the
  code for one summary named \<^verbatim>\<open>constructor\<close> and no definitions at all: the summary is
  not dropped, and the aggregation ends in a \<^verbatim>\<open>TypeError\<close> instead of the empty mapping.
  The same holds for \<^verbatim>\<open>getWorkflowsDetails\<close> on a workflow whose path ends in
  \<^verbatim>\<open>/constructor\<close> and an empty directory.
\<close>

theorem aggregate_inherited_name:
  "aggregate [\<lparr>name = ''constructor'', isEnabled = True\<rparr>] (workflowFiles_object (Some []))
     = Inl TypeError
   \<and> getWorkflowsDetails True
       (Inr [\<lparr>path = ''.github/workflows/constructor'', state = ''active''\<rparr>]) (Inr (Some []))
     = Inl TypeError"
  by (simp add: aggregate_def getWorkflowsDetails_def getWorkflows_def last_segment_def
      split_def workflowFiles_object_def own_names_def js_get_def object_prototype_names_def)

text \<open>
  C10. When no summary is named like a member of \<^verbatim>\<open>Object.prototype\<close> that the
  definitions do not hide, the summaries of name \<open>n\<close> are \<open>v # vs\<close>, in list order, and
  \<open>n\<close> has the definition \<open>y\<close>, the aggregation returns a mapping that holds one record
  under \<open>n\<close>; its \<open>name\<close> and \<open>isEnabled\<close> are those of the last such summary, and the two
  other fields come from \<open>y\<close>.
\<close>

theorem aggregate_last_wins:
  assumes "\<forall>w\<in>set S. js_get D (name w) \<noteq> Inherited"
    and "js_get D n = Value (Some y)"
    and "filter (\<lambda>w. name w = n) S = v # vs"
  shows "\<exists>details. aggregate S D = Inr details
     \<and> details n = Some
       \<lparr>name = name (last (v # vs)), isEnabled = isEnabled (last (v # vs)),
        schedule = extract_schedule y,
        manuallyDispatchable = js_includes y ''workflow_dispatch:''\<rparr>"
proof -
  from details_loop_Inr [OF assms(1)] obtain details where d: "aggregate S D = Inr details"
    unfolding aggregate_def by blast
  have "last (v # vs) \<in> set (filter (\<lambda>w. name w = n) S)"
    unfolding assms(3) using last_in_set [of "v # vs"] by simp
  then have "name (last (v # vs)) = n" by simp
  then have "details n = Some
       \<lparr>name = name (last (v # vs)), isEnabled = isEnabled (last (v # vs)),
        schedule = extract_schedule y,
        manuallyDispatchable = js_includes y ''workflow_dispatch:''\<rparr>"
    using details_loop_lookup [OF d [unfolded aggregate_def], of n] assms(2,3) by simp
  with d show ?thesis by blast
qed

theorem aggregate_last_wins_witness:
  "\<exists>details.
     aggregate
       [\<lparr>name = ''ci.yml'', isEnabled = True\<rparr>, \<lparr>name = ''a.yml'', isEnabled = True\<rparr>,
        \<lparr>name = ''ci.yml'', isEnabled = False\<rparr>]
       [''ci.yml'' \<mapsto> Some ''on: push''] = Inr details
     \<and> details ''ci.yml''
       = Some \<lparr>name = ''ci.yml'', isEnabled = False, schedule = extract_schedule ''on: push'',
            manuallyDispatchable = js_includes ''on: push'' ''workflow_dispatch:''\<rparr>"
proof -
  let ?S = "[\<lparr>name = ''ci.yml'', isEnabled = True\<rparr>, \<lparr>name = ''a.yml'', isEnabled = True\<rparr>,
        \<lparr>name = ''ci.yml'', isEnabled = False\<rparr>]"
  let ?D = "[''ci.yml'' \<mapsto> Some ''on: push'']"
  have 1: "\<forall>w\<in>set ?S. js_get ?D (name w) \<noteq> Inherited"
    by (simp add: js_get_def object_prototype_names_def)
  have 2: "js_get ?D ''ci.yml'' = Value (Some ''on: push'')" by (simp add: js_get_def)
  have 3: "filter (\<lambda>w. name w = ''ci.yml'') ?S
     = \<lparr>name = ''ci.yml'', isEnabled = True\<rparr> # [\<lparr>name = ''ci.yml'', isEnabled = False\<rparr>]"
    by simp
  from aggregate_last_wins [of ?S ?D "''ci.yml''" "''on: push''", OF 1 2 3]
  show ?thesis by simp
qed

text \<open>
  C4. The flag \<open>manuallyDispatchable\<close> of the record composed from the definition \<open>y\<close>
  is true exactly when \<^verbatim>\<open>workflow_dispatch:\<close> occurs somewhere in \<open>y\<close>, whatever stands
  before and after it.
\<close>

theorem manuallyDispatchable_iff:
  assumes "aggregate S D = Inr details" and "details n = Some r" and "D n = Some (Some y)"
  shows "manuallyDispatchable r \<longleftrightarrow> (\<exists>pre post. y = pre @ ''workflow_dispatch:'' @ post)"
proof -
  from assms(1,2) obtain y' where "js_get D n = Value (Some y')"
    and "r = \<lparr>name = n, isEnabled = isEnabled (last (filter (\<lambda>w. name w = n) S)),
                schedule = extract_schedule y',
                manuallyDispatchable = js_includes y' ''workflow_dispatch:''\<rparr>"
    by (rule aggregate_SomeD)
  with assms(3) have "manuallyDispatchable r = js_includes y ''workflow_dispatch:''"
    by (auto dest: js_get_ValueD)
  then show ?thesis by (simp only: js_includes_iff)
qed

theorem manuallyDispatchable_iff_witness:
  "(\<exists>details r.
      aggregate [\<lparr>name = ''ci.yml'', isEnabled = True\<rparr>]
        [''ci.yml'' \<mapsto> Some ''on:  workflow_dispatch:''] = Inr details
      \<and> details ''ci.yml'' = Some r \<and> manuallyDispatchable r)
   \<and> (\<exists>pre post. ''on:  workflow_dispatch:'' = pre @ ''workflow_dispatch:'' @ post)"
proof -
  let ?S = "[\<lparr>name = ''ci.yml'', isEnabled = True\<rparr>]"
  let ?D = "[''ci.yml'' \<mapsto> Some ''on:  workflow_dispatch:'']"
  obtain details r where a: "aggregate ?S ?D = Inr details" and r: "details ''ci.yml'' = Some r"
    by (simp add: aggregate_def js_get_def)
  have d: "?D ''ci.yml'' = Some (Some ''on:  workflow_dispatch:'')" by simp
  have "''on:  workflow_dispatch:'' = ''on:  '' @ ''workflow_dispatch:'' @ []" by simp
  then have ex: "\<exists>pre post. ''on:  workflow_dispatch:'' = pre @ ''workflow_dispatch:'' @ post"
    by blast
  with manuallyDispatchable_iff [OF a r d] have "manuallyDispatchable r" by simp
  with a r ex show ?thesis by blast
qed

section \<open>The search for a match\<close>

lemma first_down_Some:
  "first_down f n = Some r \<Longrightarrow>
     \<exists>k. 0 < k \<and> k \<le> n \<and> f k = Some r \<and> (\<forall>j. k < j \<and> j \<le> n \<longrightarrow> f j = None)"
proof (induction n)
  case 0
  then show ?case by simp
next
  case (Suc n)
  show ?case
  proof (cases "f (Suc n)")
    case None
    with Suc.prems have "first_down f n = Some r" by simp
    from Suc.IH [OF this] obtain k where k: "0 < k" "k \<le> n" "f k = Some r"
      "\<forall>j. k < j \<and> j \<le> n \<longrightarrow> f j = None" by blast
    have "\<forall>j. k < j \<and> j \<le> Suc n \<longrightarrow> f j = None"
      using k(4) None by (auto simp: le_Suc_eq)
    with k show ?thesis by (intro exI [of _ k]) simp
  next
    case (Some a)
    with Suc.prems have "f (Suc n) = Some r" by simp
    then show ?thesis by (intro exI [of _ "Suc n"]) auto
  qed
qed

lemma first_down_None: "first_down f n = None \<longleftrightarrow> (\<forall>k. 0 < k \<and> k \<le> n \<longrightarrow> f k = None)"
proof (induction n)
  case 0
  show ?case by simp
next
  case (Suc n)
  show ?case
    by (cases "f (Suc n)") (auto simp: Suc.IH le_Suc_eq)
qed

lemma class_prefix_length:
  "\<forall>x\<in>set a. c x \<Longrightarrow> length a \<le> length (takeWhile c (a @ s))"
  by (simp add: takeWhile_append2)

lemma take_class:
  assumes "k \<le> length (takeWhile c s)"
  shows "\<forall>x\<in>set (take k s). c x"
proof -
  have "take k s = take k (takeWhile c s @ dropWhile c s)" by simp
  also have "\<dots> = take k (takeWhile c s)" using assms by (simp del: takeWhile_dropWhile_id)
  finally have "set (take k s) \<subseteq> set (takeWhile c s)" by (simp add: set_take_subset)
  then show ?thesis by (auto dest: set_takeWhileD)
qed

lemma match_Lit:
  "match_here (Lit l # r) s = Some g \<longleftrightarrow> (\<exists>s'. s = l @ s' \<and> match_here r s' = Some g)"
  by (auto simp: starts_with_iff)

lemma match_Lit_None:
  "match_here (Lit l # r) (l @ s') = None \<longleftrightarrow> match_here r s' = None"
  by (auto simp: starts_with_iff)

lemma match_Plus_Some:
  assumes "match_here (Plus c # r) s = Some g"
  shows "\<exists>a s'. s = a @ s' \<and> a \<noteq> [] \<and> (\<forall>x\<in>set a. c x) \<and> match_here r s' = Some g
     \<and> (\<forall>a' s''. s = a' @ s'' \<and> (\<forall>x\<in>set a'. c x) \<and> length a < length a'
           \<longrightarrow> match_here r s'' = None)"
proof -
  let ?n = "length (takeWhile c s)"
  from assms have "first_down (\<lambda>k. match_here r (drop k s)) ?n = Some g" by simp
  from first_down_Some [OF this] obtain k where k: "0 < k" "k \<le> ?n"
    "match_here r (drop k s) = Some g"
    "\<forall>j. k < j \<and> j \<le> ?n \<longrightarrow> match_here r (drop j s) = None" by blast
  have len: "k \<le> length s" using k(2) length_takeWhile_le [of c s] by linarith
  have 1: "s = take k s @ drop k s" by simp
  have 2: "take k s \<noteq> []" using k(1) len by auto
  have 3: "\<forall>x\<in>set (take k s). c x" using k(2) by (rule take_class)
  have 4: "\<forall>a' s''. s = a' @ s'' \<and> (\<forall>x\<in>set a'. c x) \<and> length (take k s) < length a'
           \<longrightarrow> match_here r s'' = None"
  proof (intro allI impI)
    fix a' s''
    assume h: "s = a' @ s'' \<and> (\<forall>x\<in>set a'. c x) \<and> length (take k s) < length a'"
    then have "length a' \<le> ?n" using class_prefix_length [of a' c s''] by simp
    moreover have "k < length a'" using h len by simp
    ultimately have "match_here r (drop (length a') s) = None" using k(4) by blast
    with h show "match_here r s'' = None" by simp
  qed
  from 1 2 3 k(3) 4 show ?thesis by blast
qed

lemma match_Plus_None:
  assumes "match_here (Plus c # r) (a @ s') = None" and "a \<noteq> []" and "\<forall>x\<in>set a. c x"
  shows "match_here r s' = None"
proof -
  have "length a \<le> length (takeWhile c (a @ s'))" using assms(3) by (rule class_prefix_length)
  moreover have "0 < length a" using assms(2) by simp
  moreover have "\<forall>k. 0 < k \<and> k \<le> length (takeWhile c (a @ s'))
      \<longrightarrow> match_here r (drop k (a @ s')) = None"
    using assms(1) by (simp only: match_here.simps first_down_None)
  ultimately have "match_here r (drop (length a) (a @ s')) = None" by blast
  then show ?thesis by simp
qed

lemma first_down_total: "first_down (\<lambda>k. Some (h k)) n = (if n = 0 then None else Some (h n))"
  by (cases n) simp_all

lemma match_Group_last:
  "match_here [Group_Plus c] s = (if takeWhile c s = [] then None else Some [takeWhile c s])"
proof -
  have "take (length (takeWhile c s)) s = takeWhile c s"
    by (metis append_eq_conv_conj takeWhile_dropWhile_id)
  then show ?thesis by (simp add: first_down_total)
qed

lemma regex_exec_Some:
  "regex_exec re t = Some g \<Longrightarrow>
     \<exists>pre s. t = pre @ s \<and> match_here re s = Some g
       \<and> (\<forall>pre' s'. t = pre' @ s' \<and> length pre' < length pre \<longrightarrow> match_here re s' = None)"
proof (induction t)
  case Nil
  then have "match_here re [] = Some g" by simp
  then show ?case by (intro exI [of _ "[]"]) simp
next
  case (Cons c cs)
  show ?case
  proof (cases "match_here re (c # cs)")
    case None
    with Cons.prems have "regex_exec re cs = Some g" by simp
    from Cons.IH [OF this] obtain pre s where p: "cs = pre @ s" "match_here re s = Some g"
      "\<forall>pre' s'. cs = pre' @ s' \<and> length pre' < length pre \<longrightarrow> match_here re s' = None"
      by blast
    have "match_here re s' = None" if "c # cs = pre' @ s'" "length pre' < length (c # pre)"
      for pre' s'
    proof (cases pre')
      case Nil
      with that None show ?thesis by simp
    next
      case (Cons x xs)
      with that have "cs = xs @ s'" "length xs < length pre" by simp_all
      with p(3) show ?thesis by blast
    qed
    moreover have "c # cs = (c # pre) @ s" using p(1) by simp
    ultimately show ?thesis using p(2) by blast
  next
    case (Some a)
    with Cons.prems have "match_here re (c # cs) = Some g" by simp
    then show ?thesis by (intro exI [of _ "[]"] exI [of _ "c # cs"]) simp
  qed
qed

lemma regex_exec_None:
  "regex_exec re t = None \<longleftrightarrow> (\<forall>pre s. t = pre @ s \<longrightarrow> match_here re s = None)"
proof (induction t)
  case Nil
  show ?case by simp
next
  case (Cons c cs)
  show ?case
  proof
    assume a: "regex_exec re (c # cs) = None"
    then have 1: "match_here re (c # cs) = None" and "regex_exec re cs = None"
      by (auto split: option.splits)
    with Cons.IH have 2: "\<forall>pre s. cs = pre @ s \<longrightarrow> match_here re s = None" by simp
    show "\<forall>pre s. c # cs = pre @ s \<longrightarrow> match_here re s = None"
    proof (intro allI impI)
      fix pre s assume "c # cs = pre @ s"
      then show "match_here re s = None" using 1 2 by (cases pre) auto
    qed
  next
    assume a: "\<forall>pre s. c # cs = pre @ s \<longrightarrow> match_here re s = None"
    then have "match_here re (c # cs) = None" by (metis append_Nil)
    moreover have "\<forall>pre s. cs = pre @ s \<longrightarrow> match_here re s = None"
      using a by (metis append_Cons)
    ultimately show "regex_exec re (c # cs) = None" using Cons.IH by simp
  qed
qed

section \<open>The schedule\<close>

lemma class_run_unique:
  "a @ x # X = a' @ x # Y \<Longrightarrow> \<not> c x \<Longrightarrow> \<forall>y\<in>set a. c y \<Longrightarrow> \<forall>y\<in>set a'. c y \<Longrightarrow> a = a' \<and> X = Y"
proof (induction a arbitrary: a')
  case Nil
  then show ?case by (cases a') auto
next
  case (Cons y ys)
  then show ?case by (cases a') auto
qed

lemma not_after_schedule_c: "\<not> after_schedule (CHR ''c'')"
  by (simp add: after_schedule_def is_space_def)

lemma takeWhile_Nil_class: "cap \<noteq> [] \<Longrightarrow> \<forall>x\<in>set cap. c x \<Longrightarrow> takeWhile c (cap @ rest) \<noteq> []"
  by (cases cap) auto

lemma cron_match_shift: "cron_match (pre @ s) pre sep cap rest = cron_match s [] sep cap rest"
  by (simp add: cron_match_def)

lemma cron_match_split:
  "cron_match text pre sep cap rest \<Longrightarrow> \<exists>s. text = pre @ s \<and> cron_match s [] sep cap rest"
  by (auto simp: cron_match_def)

lemma here_Some:
  assumes "match_here cron_regex s = Some g"
  shows "\<exists>sep cap rest. cron_match s [] sep cap rest \<and> g = [cap]
     \<and> (rest = [] \<or> \<not> cron_char (hd rest))
     \<and> (\<forall>sep' cap' rest'. cron_match s [] sep' cap' rest' \<longrightarrow> length sep' \<le> length sep)"
proof -
  from assms obtain t1 where t1: "s = ''schedule'' @ t1"
    and m1: "match_here [Plus after_schedule, Lit ''cron'', Plus after_cron, Group_Plus cron_char] t1 = Some g"
    unfolding cron_regex_def match_Lit by blast
  from match_Plus_Some [OF m1] obtain s1 t2 where t2: "t1 = s1 @ t2" "s1 \<noteq> []"
    "\<forall>x\<in>set s1. after_schedule x"
    and m2: "match_here [Lit ''cron'', Plus after_cron, Group_Plus cron_char] t2 = Some g"
    by blast
  from m2 obtain t3 where t3: "t2 = ''cron'' @ t3"
    and m3: "match_here [Plus after_cron, Group_Plus cron_char] t3 = Some g"
    unfolding match_Lit by blast
  from match_Plus_Some [OF m3] obtain sep t4 where t4: "t3 = sep @ t4" "sep \<noteq> []"
    "\<forall>x\<in>set sep. after_cron x"
    and m4: "match_here [Group_Plus cron_char] t4 = Some g"
    and greedy: "\<forall>a' s''. t3 = a' @ s'' \<and> (\<forall>x\<in>set a'. after_cron x) \<and> length sep < length a'
           \<longrightarrow> match_here [Group_Plus cron_char] s'' = None"
    by blast
  let ?cap = "takeWhile cron_char t4" and ?rest = "dropWhile cron_char t4"
  from m4 have cap: "?cap \<noteq> []" "g = [?cap]"
    unfolding match_Group_last by (auto split: if_splits)
  have capc: "\<forall>x\<in>set ?cap. cron_char x" by (auto dest: set_takeWhileD)
  have "s = [] @ ''schedule'' @ s1 @ ''cron'' @ sep @ ?cap @ ?rest"
    using t1 t2 t3 t4 by simp
  with t2 t4 cap capc have cm: "cron_match s [] sep ?cap ?rest"
    unfolding cron_match_def by blast
  have rest: "?rest = [] \<or> \<not> cron_char (hd ?rest)"
    using hd_dropWhile [of cron_char t4] by blast
  have "length sep' \<le> length sep" if "cron_match s [] sep' cap' rest'" for sep' cap' rest'
  proof (rule ccontr)
    assume "\<not> length sep' \<le> length sep"
    then have lt: "length sep < length sep'" by simp
    from that obtain s1' where d: "s = [] @ ''schedule'' @ s1' @ ''cron'' @ sep' @ cap' @ rest'"
      "\<forall>x\<in>set s1'. after_schedule x" "\<forall>x\<in>set sep'. after_cron x"
      "cap' \<noteq> []" "\<forall>x\<in>set cap'. cron_char x"
      unfolding cron_match_def by blast
    from d(1) t1 t2 t3 have "s1 @ CHR ''c'' # (''ron'' @ t3) = s1' @ CHR ''c'' # (''ron'' @ sep' @ cap' @ rest')"
      by simp
    from class_run_unique [OF this not_after_schedule_c t2(3) d(2)]
    have "t3 = sep' @ cap' @ rest'" by simp
    with greedy d(3) lt have "match_here [Group_Plus cron_char] (cap' @ rest') = None" by blast
    then have "takeWhile cron_char (cap' @ rest') = []"
      unfolding match_Group_last by (simp split: if_splits)
    with takeWhile_Nil_class [OF d(4) d(5)] show False by blast
  qed
  with cm cap(2) rest show ?thesis by blast
qed

lemma here_None:
  assumes "match_here cron_regex s = None"
  shows "\<not> cron_match s [] sep cap rest"
proof
  assume "cron_match s [] sep cap rest"
  then obtain s1 where d: "s = ''schedule'' @ s1 @ ''cron'' @ sep @ cap @ rest"
    "s1 \<noteq> []" "\<forall>x\<in>set s1. after_schedule x" "sep \<noteq> []" "\<forall>x\<in>set sep. after_cron x"
    "cap \<noteq> []" "\<forall>x\<in>set cap. cron_char x"
    unfolding cron_match_def by auto
  from assms have "match_here [Plus after_schedule, Lit ''cron'', Plus after_cron, Group_Plus cron_char]
      (s1 @ ''cron'' @ sep @ cap @ rest) = None"
    unfolding cron_regex_def d(1) match_Lit_None .
  from match_Plus_None [OF this d(2) d(3)]
  have "match_here [Plus after_cron, Group_Plus cron_char] (sep @ cap @ rest) = None"
    unfolding match_Lit_None .
  from match_Plus_None [OF this d(4) d(5)]
  have "takeWhile cron_char (cap @ rest) = []"
    unfolding match_Group_last by (simp split: if_splits)
  with takeWhile_Nil_class [OF d(6) d(7)] show False by blast
qed

lemma extract_schedule_Some:
  assumes "extract_schedule text = Some cap"
  shows "\<exists>pre sep rest. cron_match text pre sep cap rest
     \<and> (rest = [] \<or> hd rest = quote \<or> hd rest = dquote \<or> hd rest = newline)
     \<and> (\<forall>pre' sep' cap' rest'. cron_match text pre' sep' cap' rest' \<longrightarrow> length pre \<le> length pre')
     \<and> (\<forall>sep' cap' rest'. cron_match text pre sep' cap' rest' \<longrightarrow> length sep' \<le> length sep)"
proof -
  from assms obtain g gs where g: "regex_exec cron_regex text = Some (g # gs)" and "g = cap"
    by (auto simp: extract_schedule_def split: option.splits list.splits)
  from regex_exec_Some [OF g] obtain pre s where ps: "text = pre @ s"
    "match_here cron_regex s = Some (g # gs)"
    and first: "\<forall>pre' s'. text = pre' @ s' \<and> length pre' < length pre
       \<longrightarrow> match_here cron_regex s' = None"
    by blast
  from here_Some [OF ps(2)] obtain sep c rest where h: "cron_match s [] sep c rest"
    "g # gs = [c]" "rest = [] \<or> \<not> cron_char (hd rest)"
    "\<forall>sep' cap' rest'. cron_match s [] sep' cap' rest' \<longrightarrow> length sep' \<le> length sep"
    by blast
  from h(2) \<open>g = cap\<close> have "c = cap" by simp
  with h(1) ps(1) have 1: "cron_match text pre sep cap rest" by (simp add: cron_match_shift)
  from h(3) have 2: "rest = [] \<or> hd rest = quote \<or> hd rest = dquote \<or> hd rest = newline"
    by (auto simp: cron_char_def)
  have 3: "\<forall>pre' sep' cap' rest'. cron_match text pre' sep' cap' rest' \<longrightarrow> length pre \<le> length pre'"
  proof (intro allI impI, rule ccontr)
    fix pre' sep' cap' rest'
    assume m: "cron_match text pre' sep' cap' rest'" and "\<not> length pre \<le> length pre'"
    then have lt: "length pre' < length pre" by simp
    from cron_match_split [OF m] obtain s' where s': "text = pre' @ s'"
      "cron_match s' [] sep' cap' rest'" by blast
    from first s'(1) lt have "match_here cron_regex s' = None" by blast
    from here_None [OF this] s'(2) show False by blast
  qed
  have 4: "\<forall>sep' cap' rest'. cron_match text pre sep' cap' rest' \<longrightarrow> length sep' \<le> length sep"
    using h(4) unfolding ps(1) cron_match_shift .
  from 1 2 3 4 show ?thesis by blast
qed

lemma extract_schedule_None:
  "extract_schedule text = None \<longleftrightarrow> (\<forall>pre sep cap rest. \<not> cron_match text pre sep cap rest)"
proof
  assume n: "extract_schedule text = None"
  have "regex_exec cron_regex text = None"
  proof (rule ccontr)
    assume "regex_exec cron_regex text \<noteq> None"
    then obtain g where g: "regex_exec cron_regex text = Some g" by blast
    from regex_exec_Some [OF g] obtain s where "match_here cron_regex s = Some g" by blast
    from here_Some [OF this] obtain c where "g = [c]" by blast
    with g n show False by (simp add: extract_schedule_def)
  qed
  then have none: "\<forall>pre s. text = pre @ s \<longrightarrow> match_here cron_regex s = None"
    by (simp only: regex_exec_None)
  show "\<forall>pre sep cap rest. \<not> cron_match text pre sep cap rest"
  proof (intro allI notI)
    fix pre sep cap rest
    assume m: "cron_match text pre sep cap rest"
    from cron_match_split [OF m] obtain s where s: "text = pre @ s" "cron_match s [] sep cap rest"
      by blast
    from none s(1) have "match_here cron_regex s = None" by blast
    from here_None [OF this] s(2) show False by blast
  qed
next
  assume a: "\<forall>pre sep cap rest. \<not> cron_match text pre sep cap rest"
  show "extract_schedule text = None"
  proof (rule ccontr)
    assume "extract_schedule text \<noteq> None"
    then obtain cap where "extract_schedule text = Some cap" by blast
    from extract_schedule_Some [OF this] a show False by blast
  qed
qed

lemma cron_match_includes: "cron_match text pre sep cap rest \<Longrightarrow> js_includes text ''cron''"
proof -
  assume "cron_match text pre sep cap rest"
  then obtain s1 where "text = pre @ ''schedule'' @ s1 @ ''cron'' @ sep @ cap @ rest"
    unfolding cron_match_def by blast
  then have "text = (pre @ ''schedule'' @ s1) @ ''cron'' @ (sep @ cap @ rest)" by simp
  then show ?thesis unfolding js_includes_iff by blast
qed

lemmas cron_defs = extract_schedule_def cron_regex_def after_schedule_def after_cron_def
  cron_char_def is_space_def quote_def dquote_def newline_def

lemma example_schedule:
  "extract_schedule (''schedule:'' @ [newline] @ ''  - cron: '' @ [dquote] @ ''0 0 * * *'' @ [dquote])
     = Some ''0 0 * * *''"
  by (simp add: cron_defs)

text \<open>
  C3 (as amended). For every raw definition text, the extracted schedule is the group of
  the first match of the regular expression, which is case-sensitive: the match that
  starts earliest, with the longest run of separators after \<^verbatim>\<open>cron\<close> that still leaves
  a group, and the group runs up to the next quote, line feed or the end of the text.
  There is no schedule exactly when the text has no match. The text
  \<^verbatim>\<open>schedule:\n  - cron: "0 0 * * *"\<close> yields \<^verbatim>\<open>0 0 * * *\<close>, and a text in which
  \<^verbatim>\<open>cron\<close> does not occur yields no schedule.
\<close>

theorem extract_schedule_first_match:
  "(extract_schedule text = Some cap \<longrightarrow>
      (\<exists>pre sep rest. cron_match text pre sep cap rest
         \<and> (rest = [] \<or> hd rest = quote \<or> hd rest = dquote \<or> hd rest = newline)
         \<and> (\<forall>pre' sep' cap' rest'. cron_match text pre' sep' cap' rest'
               \<longrightarrow> length pre \<le> length pre')
         \<and> (\<forall>sep' cap' rest'. cron_match text pre sep' cap' rest'
               \<longrightarrow> length sep' \<le> length sep)))
   \<and> ((extract_schedule text = None) = (\<forall>pre sep c rest. \<not> cron_match text pre sep c rest))
   \<and> extract_schedule
        (''schedule:'' @ [newline] @ ''  - cron: '' @ [dquote] @ ''0 0 * * *'' @ [dquote])
       = Some ''0 0 * * *''
   \<and> (\<not> js_includes text ''cron'' \<longrightarrow> extract_schedule text = None)"
proof (intro conjI impI)
  assume "extract_schedule text = Some cap"
  then show "\<exists>pre sep rest. cron_match text pre sep cap rest
         \<and> (rest = [] \<or> hd rest = quote \<or> hd rest = dquote \<or> hd rest = newline)
         \<and> (\<forall>pre' sep' cap' rest'. cron_match text pre' sep' cap' rest'
               \<longrightarrow> length pre \<le> length pre')
         \<and> (\<forall>sep' cap' rest'. cron_match text pre sep' cap' rest'
               \<longrightarrow> length sep' \<le> length sep)"
    by (rule extract_schedule_Some)
next
  show "(extract_schedule text = None) = (\<forall>pre sep c rest. \<not> cron_match text pre sep c rest)"
    by (rule extract_schedule_None)
next
  show "extract_schedule
        (''schedule:'' @ [newline] @ ''  - cron: '' @ [dquote] @ ''0 0 * * *'' @ [dquote])
       = Some ''0 0 * * *''"
    by (rule example_schedule)
next
  assume "\<not> js_includes text ''cron''"
  then have "\<forall>pre sep c rest. \<not> cron_match text pre sep c rest"
    using cron_match_includes by blast
  then show "extract_schedule text = None" unfolding extract_schedule_None .
qed

theorem extract_schedule_first_match_witness:
  "extract_schedule
        (''schedule:'' @ [newline] @ ''  - cron: '' @ [dquote] @ ''0 0 * * *'' @ [dquote])
       = Some ''0 0 * * *''
   \<and> (\<exists>pre sep rest. cron_match
        (''schedule:'' @ [newline] @ ''  - cron: '' @ [dquote] @ ''0 0 * * *'' @ [dquote])
        pre sep ''0 0 * * *'' rest
        \<and> (rest = [] \<or> hd rest = quote \<or> hd rest = dquote \<or> hd rest = newline))
   \<and> \<not> js_includes ''on: push'' ''cron''
   \<and> extract_schedule ''on: push'' = None"
proof -
  let ?t = "''schedule:'' @ [newline] @ ''  - cron: '' @ [dquote] @ ''0 0 * * *'' @ [dquote]"
  have a: "extract_schedule ?t = Some ''0 0 * * *''"
    using extract_schedule_first_match [of ?t "''0 0 * * *''"] by blast
  with extract_schedule_first_match [of ?t "''0 0 * * *''"]
  have b: "\<exists>pre sep rest. cron_match ?t pre sep ''0 0 * * *'' rest
        \<and> (rest = [] \<or> hd rest = quote \<or> hd rest = dquote \<or> hd rest = newline)"
    by blast
  have c: "\<not> js_includes ''on: push'' ''cron''" by simp
  with extract_schedule_first_match [of "''on: push''" "[]"]
  have d: "extract_schedule ''on: push'' = None" by blast
  from a b c d show ?thesis by blast
qed

text \<open>
  C3 as stated fails: the upper-case spelling of the example has no match, and a text with
  \<^verbatim>\<open>cron\<close> but without \<^verbatim>\<open>cron:\<close> can have one.
\<close>

theorem extract_schedule_case_counterexample:
  "extract_schedule
        (''SCHEDULE:'' @ [newline] @ ''  - CRON: '' @ [dquote] @ ''0 0 * * *'' @ [dquote]) = None
   \<and> \<not> js_includes ''schedule cron 5'' ''cron:''
   \<and> extract_schedule ''schedule cron 5'' = Some ''5''"
  by (simp add: cron_defs)

section \<open>The list fetcher\<close>

lemma split_from_not_Nil: "split_from sep cur s \<noteq> []"
  by (induction s arbitrary: cur) auto

lemma pop_last: "xs \<noteq> [] \<Longrightarrow> pop xs = Some (last xs)"
  by (induction xs rule: pop.induct) auto

lemma last_split_from:
  "last (split_from sep cur s) =
     (if sep \<in> set s then rev (takeWhile (\<lambda>c. c \<noteq> sep) (rev s)) else cur @ s)"
proof (induction s arbitrary: cur)
  case Nil
  show ?case by simp
next
  case (Cons c cs)
  show ?case
  proof (cases "c = sep")
    case True
    then show ?thesis
      by (auto simp: Cons.IH split_from_not_Nil takeWhile_append)
  next
    case False
    then show ?thesis
      by (auto simp: Cons.IH takeWhile_append)
  qed
qed

lemma last_segment_eq: "last_segment p = rev (takeWhile (\<lambda>c. c \<noteq> CHR ''/'') (rev p))"
proof -
  have "last_segment p = last (split_from (CHR ''/'') [] p)"
    by (simp add: last_segment_def split_def pop_last split_from_not_Nil)
  also have "\<dots> = rev (takeWhile (\<lambda>c. c \<noteq> CHR ''/'') (rev p))"
  proof (cases "CHR ''/'' \<in> set p")
    case True
    then show ?thesis by (simp add: last_split_from)
  next
    case False
    then have "takeWhile (\<lambda>c. c \<noteq> CHR ''/'') (rev p) = rev p"
      by (intro takeWhile_eq_all_conv [THEN iffD2]) auto
    then have "rev (takeWhile (\<lambda>c. c \<noteq> CHR ''/'') (rev p)) = p"
      by (simp only: rev_rev_ident)
    with False show ?thesis by (simp only: last_split_from if_False append_Nil)
  qed
  finally show ?thesis .
qed

lemma details_loop_skip:
  "files k = None \<Longrightarrow> k \<notin> set object_prototype_names \<Longrightarrow>
     details_loop (filter (\<lambda>w. name w \<noteq> k) ws) files acc = details_loop ws files acc"
proof (induction ws arbitrary: acc)
  case Nil
  show ?case by simp
next
  case (Cons w ws)
  show ?case
  proof (cases "name w = k")
    case True
    with Cons.prems have "js_get files (name w) = Undefined"
      by (auto simp: js_get_def object_prototype_names_def)
    with True Cons show ?thesis by simp
  next
    case False
    with Cons show ?thesis by (simp split: property.splits option.splits)
  qed
qed

lemma empty_not_inherited: "[] \<notin> set object_prototype_names"
  by (simp add: object_prototype_names_def)

text \<open>
  C5. The name of a summary is the last segment of the entry's path after splitting on
  \<^verbatim>\<open>/\<close>, that is the longest suffix without \<^verbatim>\<open>/\<close>; the fetcher makes one summary per
  entry, in order, so names may repeat or be empty, and the empty path gives the empty
  name. When the definitions have no key that is the empty name, the summaries of that
  name change nothing in the outcome of the aggregation, be it a mapping or an error; a
  mapping that it returns has no record under the empty name; a row whose name is empty
  is left as it is; and summaries that all have the empty path give the empty mapping.
\<close>

theorem empty_name_dropped:
  assumes "D [] = None"
  shows "map name (getWorkflows ws)
           = map (\<lambda>w. rev (takeWhile (\<lambda>c. c \<noteq> CHR ''/'') (rev (path w)))) ws
     \<and> getWorkflows [\<lparr>path = [], state = s\<rparr>] = [\<lparr>name = [], isEnabled = (s = ''active'')\<rparr>]
     \<and> aggregate S D = aggregate (filter (\<lambda>w. name w \<noteq> []) S) D
     \<and> (aggregate S D = Inr details \<longrightarrow> details [] = None)
     \<and> (workflows [] = None \<and> last_segment (href item) = [] \<longrightarrow>
          addIndicators nextDate (Inr workflows) item = Inr item)
     \<and> ((\<forall>w\<in>set ws. path w = []) \<longrightarrow> aggregate (getWorkflows ws) D = Inr Map.empty)"
proof (intro conjI impI)
  show "map name (getWorkflows ws)
           = map (\<lambda>w. rev (takeWhile (\<lambda>c. c \<noteq> CHR ''/'') (rev (path w)))) ws"
    by (simp add: getWorkflows_def last_segment_eq)
  show "getWorkflows [\<lparr>path = [], state = s\<rparr>] = [\<lparr>name = [], isEnabled = (s = ''active'')\<rparr>]"
    by (simp add: getWorkflows_def last_segment_eq)
  show skip: "aggregate S D = aggregate (filter (\<lambda>w. name w \<noteq> []) S) D" for S
    using assms by (simp add: aggregate_def details_loop_skip empty_not_inherited)
  {
    assume "\<forall>w\<in>set ws. path w = []"
    then have "filter (\<lambda>w. name w \<noteq> []) (getWorkflows ws) = []"
      by (simp add: getWorkflows_def last_segment_eq filter_empty_conv)
    with skip [of "getWorkflows ws"] show "aggregate (getWorkflows ws) D = Inr Map.empty"
      by (simp add: aggregate_def)
  }
next
  assume "aggregate S D = Inr details"
  from details_loop_lookup [OF this [unfolded aggregate_def], of "[]"] assms
  show "details [] = None" by (simp add: js_get_empty_key)
next
  assume "workflows [] = None \<and> last_segment (href item) = []"
  then show "addIndicators nextDate (Inr workflows) item = Inr item"
    by (simp add: addIndicators_def js_get_empty_key)
qed

theorem empty_name_dropped_witness:
  "map name (getWorkflows [\<lparr>path = [], state = ''active''\<rparr>,
       \<lparr>path = ''.github/workflows/ci.yml'', state = ''disabled_manually''\<rparr>])
     = [[], ''ci.yml'']
   \<and> aggregate (getWorkflows [\<lparr>path = [], state = ''active''\<rparr>,
       \<lparr>path = ''.github/workflows/ci.yml'', state = ''disabled_manually''\<rparr>])
       [''ci.yml'' \<mapsto> Some ''on: push'']
     = aggregate [\<lparr>name = ''ci.yml'', isEnabled = False\<rparr>] [''ci.yml'' \<mapsto> Some ''on: push'']
   \<and> (\<exists>details.
        aggregate (getWorkflows [\<lparr>path = [], state = ''active''\<rparr>,
          \<lparr>path = ''.github/workflows/ci.yml'', state = ''disabled_manually''\<rparr>])
          [''ci.yml'' \<mapsto> Some ''on: push''] = Inr details
        \<and> details [] = None
        \<and> (\<forall>nextDate.
             addIndicators nextDate (Inr details)
               \<lparr>href = ''/o/r/actions/workflows/'', native_stop = False, aria_label = None,
                tooltipped = False, trailers = [], item_label = Some [], timers = []\<rparr>
             = Inr \<lparr>href = ''/o/r/actions/workflows/'', native_stop = False,
                 aria_label = None, tooltipped = False, trailers = [], item_label = Some [],
                 timers = []\<rparr>))
   \<and> aggregate (getWorkflows [\<lparr>path = [], state = ''active''\<rparr>])
       [''ci.yml'' \<mapsto> Some ''on: push''] = Inr Map.empty"
proof -
  let ?ws = "[\<lparr>path = [], state = ''active''\<rparr>,
       \<lparr>path = ''.github/workflows/ci.yml'', state = ''disabled_manually''\<rparr>]"
  let ?D = "[''ci.yml'' \<mapsto> Some ''on: push'']"
  let ?item = "\<lparr>href = ''/o/r/actions/workflows/'', native_stop = False, aria_label = None,
                tooltipped = False, trailers = [], item_label = Some [], timers = []\<rparr>"
  have d: "?D [] = None" by simp
  have n: "map name (getWorkflows ?ws) = [[], ''ci.yml'']"
    using empty_name_dropped [of ?D ?ws, OF d] by simp
  have g: "getWorkflows ?ws
     = [\<lparr>name = [], isEnabled = True\<rparr>, \<lparr>name = ''ci.yml'', isEnabled = False\<rparr>]"
    using n by (simp add: getWorkflows_def)
  have 2: "aggregate (getWorkflows ?ws) ?D
     = aggregate [\<lparr>name = ''ci.yml'', isEnabled = False\<rparr>] ?D"
    using empty_name_dropped [of ?D ?ws _ "getWorkflows ?ws", OF d] unfolding g by simp
  obtain details where a: "aggregate (getWorkflows ?ws) ?D = Inr details"
    unfolding 2 by (simp add: aggregate_def js_get_def)
  have 3: "details [] = None"
    using empty_name_dropped [of ?D ?ws _ "getWorkflows ?ws" details, OF d] a by blast
  have s: "last_segment (href ?item) = []" by (simp add: last_segment_def split_def)
  have 4: "addIndicators nextDate (Inr details) ?item = Inr ?item" for nextDate
    using empty_name_dropped [of ?D ?ws _ _ _ details ?item nextDate, OF d] 3 s by blast
  have e: "\<forall>w\<in>set [\<lparr>path = [], state = ''active''\<rparr>]. path w = []" by simp
  have 5: "aggregate (getWorkflows [\<lparr>path = [], state = ''active''\<rparr>]) ?D = Inr Map.empty"
    using empty_name_dropped [of ?D "[\<lparr>path = [], state = ''active''\<rparr>]" "''active''" "[]"
        Map.empty Map.empty ?item "\<lambda>s. Inr None", OF d] e
    by blast
  from n 2 a 3 4 5 show ?thesis by blast
qed

section \<open>The definition fetcher\<close>





section \<open>The indicators\<close>

lemma aggregate_schedule_not_empty:
  assumes "aggregate S D = Inr details" and "details n = Some r"
  shows "schedule r \<noteq> Some []"
proof
  assume e: "schedule r = Some []"
  from assms obtain y where "r = \<lparr>name = n, isEnabled = isEnabled (last (filter (\<lambda>w. name w = n) S)),
                schedule = extract_schedule y,
                manuallyDispatchable = js_includes y ''workflow_dispatch:''\<rparr>"
    by (rule aggregate_SomeD)
  with e have "extract_schedule y = Some []" by simp
  from extract_schedule_Some [OF this] show False by (auto simp: cron_match_def)
qed






end
